theory Spec2Isabelle
  imports Main "HOL-Library.AList" "HOL-Library.Sublist"
begin

section \<open>Shared data\<close>

text \<open>
  A Python \<^verbatim>\<open>dict\<close> with string keys is an association list with distinct keys:
  \<open>map_of d k\<close> is \<^verbatim>\<open>d.get(k)\<close> and \<open>AList.update k v d\<close> is \<^verbatim>\<open>d[k] = v\<close>
  (replace in place, or append a new key last). The values of a state mapping are kept
  abstract (\<open>'v\<close>): the stores never look inside them. The text column that
  \<^verbatim>\<open>json.dumps\<close> writes and \<^verbatim>\<open>json.loads\<close> reads back is represented by the
  mapping it decodes to, and equality on \<open>'v\<close> stands for Python's \<^verbatim>\<open>==\<close> on decoded
  values.

  A point in time is a count of microseconds, the resolution of Python's
  \<^verbatim>\<open>datetime\<close>. SQLite's \<^verbatim>\<open>datetime(x)\<close> renders a time to whole seconds, dropping
  the fraction; both stores compare times only through it.
\<close>

type_synonym 'v pydict = "(string \<times> 'v) list"

type_synonym timestamp = int

definition sql_datetime :: "timestamp \<Rightarrow> int" where
  "sql_datetime t = t div 1000000"

text \<open>Exceptions that the modelled code raises itself or lets through from an agent.\<close>

datatype exn = ValueError string | KeyError string | AgentError string

section \<open>The state store: \<^verbatim>\<open>graph/state_manager.py\<close>\<close>

text \<open>
  Table \<^verbatim>\<open>agent_states\<close> has \<^verbatim>\<open>agent_id\<close> as primary key, so it is a map from the
  identity to the rest of the row. Table \<^verbatim>\<open>state_history\<close> has an autoincrement row
  id: its rows are a list in insertion order, which is also the order in which a
  \<^verbatim>\<open>SELECT\<close> without \<^verbatim>\<open>ORDER BY\<close> scans them.
\<close>

record 'v current_row =
  cur_state :: "'v pydict"
  cur_timestamp :: timestamp
  cur_version :: int

record 'v history_row =
  hist_agent_id :: string
  hist_state :: "'v pydict"
  hist_timestamp :: timestamp
  hist_version :: int

record 'v db =
  agent_states :: "string \<rightharpoonup> 'v current_row"
  state_history :: "'v history_row list"

definition empty_db :: "'v db" where
  "empty_db = \<lparr>agent_states = Map.empty, state_history = []\<rparr>"

text \<open>
  \<^verbatim>\<open>save_state\<close>: the version is one more than the version of the current row, or 1
  when the identity has no current row; the current row is replaced and a history row
  with the same contents is appended. \<open>now\<close> is the reading of \<^verbatim>\<open>datetime.now()\<close>.
\<close>

definition save_state :: "'v db \<Rightarrow> string \<Rightarrow> 'v pydict \<Rightarrow> timestamp \<Rightarrow> 'v db" where
  "save_state d agent_id st now =
     (let version = (case agent_states d agent_id of
                       Some r \<Rightarrow> cur_version r + 1
                     | None \<Rightarrow> 1)
      in d\<lparr>agent_states := (agent_states d)(agent_id \<mapsto>
               \<lparr>cur_state = st, cur_timestamp = now, cur_version = version\<rparr>),
            state_history := state_history d @
               [\<lparr>hist_agent_id = agent_id, hist_state = st,
                 hist_timestamp = now, hist_version = version\<rparr>]\<rparr>)"

definition load_state :: "'v db \<Rightarrow> string \<Rightarrow> 'v pydict option" where
  "load_state d agent_id =
     (case agent_states d agent_id of
        Some r \<Rightarrow> Some (cur_state r)
      | None \<Rightarrow> None)"

text \<open>
  \<^verbatim>\<open>compare_states\<close>. The result is either the empty dictionary \<^verbatim>\<open>{}\<close> or a
  dictionary with the three entries \<^verbatim>\<open>added\<close>, \<^verbatim>\<open>removed\<close> and \<^verbatim>\<open>modified\<close>;
  an entry of \<^verbatim>\<open>modified\<close> pairs the value \<^verbatim>\<open>from\<close> with the value \<^verbatim>\<open>to\<close>.
\<close>

datatype 'v comparison =
  Empty_dict
| Differences (added: "'v pydict") (removed: "'v pydict") (modified: "('v \<times> 'v) pydict")

text \<open>
  The rows the query selects: those of the identity whose version is one of the two
  asked for, in table order. The two versions enter only through \<^verbatim>\<open>IN (?, ?)\<close>.
\<close>

definition select_states :: "'v db \<Rightarrow> string \<Rightarrow> int \<Rightarrow> int \<Rightarrow> 'v pydict list" where
  "select_states d agent_id version1 version2 =
     map hist_state
       (filter (\<lambda>r. hist_agent_id r = agent_id \<and>
                     (hist_version r = version1 \<or> hist_version r = version2))
          (state_history d))"

text \<open>
  The loop over \<^verbatim>\<open>set(state1.keys()) | set(state2.keys())\<close>. A subscript
  \<^verbatim>\<open>state2[key]\<close> on a missing key raises \<^verbatim>\<open>KeyError\<close>.
\<close>

fun find_differences ::
  "string list \<Rightarrow> 'v pydict \<Rightarrow> 'v pydict \<Rightarrow>
   'v pydict \<times> 'v pydict \<times> ('v \<times> 'v) pydict \<Rightarrow>
   exn + 'v pydict \<times> 'v pydict \<times> ('v \<times> 'v) pydict" where
  "find_differences [] state1 state2 acc = Inr acc"
| "find_differences (key # keys) state1 state2 (a, r, m) =
     (case map_of state1 key of
        None \<Rightarrow>
          (case map_of state2 key of
             None \<Rightarrow> Inl (KeyError key)
           | Some y \<Rightarrow> find_differences keys state1 state2 (AList.update key y a, r, m))
      | Some x \<Rightarrow>
          (case map_of state2 key of
             None \<Rightarrow> find_differences keys state1 state2 (a, AList.update key x r, m)
           | Some y \<Rightarrow>
               if x \<noteq> y
               then find_differences keys state1 state2
                      (a, r, AList.update key (x, y) m)
               else find_differences keys state1 state2 (a, r, m)))"

text \<open>
  Python does not fix the order in which the union of the two key sets is walked;
  \<open>union_keys\<close> takes the keys of \<open>state1\<close> first. Each key is handled on its own,
  so the order only decides the order of the entries inside the three result
  dictionaries.
\<close>

definition union_keys :: "'v pydict \<Rightarrow> 'v pydict \<Rightarrow> string list" where
  "union_keys state1 state2 = remdups (map fst state1 @ map fst state2)"

text \<open>The body of the \<^verbatim>\<open>try\<close> block.\<close>

definition compare_states_try :: "'v db \<Rightarrow> string \<Rightarrow> int \<Rightarrow> int \<Rightarrow> exn + 'v comparison" where
  "compare_states_try d agent_id version1 version2 =
     (case select_states d agent_id version1 version2 of
        [state1, state2] \<Rightarrow>
          (case find_differences (union_keys state1 state2) state1 state2 ([], [], []) of
             Inl e \<Rightarrow> Inl e
           | Inr (a, r, m) \<Rightarrow> Inr (Differences a r m))
      | _ \<Rightarrow> Inr Empty_dict)"

text \<open>
  The whole method: \<^verbatim>\<open>except Exception\<close> logs and returns \<^verbatim>\<open>{}\<close>, so nothing raised
  inside reaches the caller.
\<close>

definition compare_states :: "'v db \<Rightarrow> string \<Rightarrow> int \<Rightarrow> int \<Rightarrow> exn + 'v comparison" where
  "compare_states d agent_id version1 version2 =
     (case compare_states_try d agent_id version1 version2 of
        Inl e \<Rightarrow> Inr Empty_dict
      | Inr c \<Rightarrow> Inr c)"

text \<open>
  \<^verbatim>\<open>clear_history\<close>: with a date, the rows of the identity whose time, to the second,
  is before the date, to the second, are deleted; with no date, all rows of the
  identity. (A \<^verbatim>\<open>datetime\<close> object is always true, so the test \<^verbatim>\<open>if before_date\<close>
  only separates \<^verbatim>\<open>None\<close>.) Table \<^verbatim>\<open>agent_states\<close> is not written.
\<close>

definition clear_history :: "'v db \<Rightarrow> string \<Rightarrow> timestamp option \<Rightarrow> 'v db" where
  "clear_history d agent_id before_date =
     (case before_date of
        Some b \<Rightarrow>
          d\<lparr>state_history :=
              filter (\<lambda>r. \<not> (hist_agent_id r = agent_id \<and>
                               sql_datetime (hist_timestamp r) < sql_datetime b))
                (state_history d)\<rparr>
      | None \<Rightarrow>
          d\<lparr>state_history :=
              filter (\<lambda>r. \<not> (hist_agent_id r = agent_id)) (state_history d)\<rparr>)"

text \<open>Runs of the store: a list of calls, applied from left to right.\<close>

datatype 'v store_call =
  Save string "'v pydict" timestamp
| Clear string "timestamp option"

fun store_step :: "'v db \<Rightarrow> 'v store_call \<Rightarrow> 'v db" where
  "store_step d (Save agent_id st now) = save_state d agent_id st now"
| "store_step d (Clear agent_id before_date) = clear_history d agent_id before_date"

fun store_run :: "'v db \<Rightarrow> 'v store_call list \<Rightarrow> 'v db" where
  "store_run d [] = d"
| "store_run d (c # cs) = store_run (store_step d c) cs"

text \<open>
  What a run is compared with: the blobs saved for one identity, in call order, and
  the versions that the history holds for it, in table order.
\<close>

fun saved_blobs :: "string \<Rightarrow> 'v store_call list \<Rightarrow> 'v pydict list" where
  "saved_blobs agent_id [] = []"
| "saved_blobs agent_id (Save i st now # cs) =
     (if i = agent_id then st # saved_blobs agent_id cs else saved_blobs agent_id cs)"
| "saved_blobs agent_id (Clear i b # cs) = saved_blobs agent_id cs"

fun only_saves :: "'v store_call list \<Rightarrow> bool" where
  "only_saves [] = True"
| "only_saves (Save i st now # cs) = only_saves cs"
| "only_saves (Clear i b # cs) = False"

definition history_of :: "'v db \<Rightarrow> string \<Rightarrow> 'v history_row list" where
  "history_of d agent_id = filter (\<lambda>r. hist_agent_id r = agent_id) (state_history d)"

definition versions_of :: "'v db \<Rightarrow> string \<Rightarrow> int list" where
  "versions_of d agent_id = map hist_version (history_of d agent_id)"

definition current_version :: "'v db \<Rightarrow> string \<Rightarrow> int" where
  "current_version d agent_id =
     (case agent_states d agent_id of Some r \<Rightarrow> cur_version r | None \<Rightarrow> 0)"

section \<open>The cache: \<^verbatim>\<open>data/cache.py\<close>\<close>

text \<open>
  Table \<^verbatim>\<open>engagement_cache\<close> has the key as primary key. Times count microseconds
  from the first instant a Python \<^verbatim>\<open>datetime\<close> can hold; \<open>datetime_max\<close> is the last
  one (year 9999). Adding a \<^verbatim>\<open>timedelta\<close> that leaves this range raises
  \<^verbatim>\<open>OverflowError\<close>, which \<^verbatim>\<open>set\<close> catches and logs: the table is then not written.
\<close>

record 'v cache_row =
  row_value :: 'v
  row_timestamp :: timestamp
  row_expiry :: timestamp

record 'v engagement_cache =
  cache_duration :: int
  table :: "string \<rightharpoonup> 'v cache_row"






definition cache_delete :: "'v engagement_cache \<Rightarrow> string \<Rightarrow> 'v engagement_cache" where
  "cache_delete c key = c\<lparr>table := (table c)(key := None)\<rparr>"


section \<open>The agent manager: \<^verbatim>\<open>utils/agent_manager.py\<close>\<close>

text \<open>
  The manager holds agents of any class (\<^verbatim>\<open>Any\<close>). An agent is a value of an
  arbitrary type \<open>'a\<close>, and the methods the manager calls on it are parameters of the
  operations: \<open>initialize\<close> and \<open>cleanup\<close> give back the agent as the call left it
  together with the exception the call raised, if any; \<open>get_state\<close> gives the exported
  state or raises. Each identity is taken to be registered with an agent object of its
  own.

  The registry \<^verbatim>\<open>agents\<close> is a dictionary (insertion ordered), \<^verbatim>\<open>active_agents\<close> a
  set, and \<open>logged\<close> the lines given to the logger. The field \<^verbatim>\<open>agent_metrics\<close> is left
  out: no operation below reads or writes it.

  An operation returns the exception that reaches its caller, if any, and the manager
  as the call left it.
\<close>

record 'a manager =
  agents :: "'a pydict"
  active_agents :: "string set"
  logged :: "string list"

definition new_manager :: "'a manager" where
  "new_manager = \<lparr>agents = [], active_agents = {}, logged = []\<rparr>"

definition register_agent :: "'a manager \<Rightarrow> string \<Rightarrow> 'a \<Rightarrow> exn option \<times> 'a manager" where
  "register_agent m agent_id agent =
     (case map_of (agents m) agent_id of
        Some other \<Rightarrow> (Some (ValueError (''Agent '' @ agent_id @ '' already registered'')), m)
      | None \<Rightarrow>
          (None, m\<lparr>agents := AList.update agent_id agent (agents m),
                    logged := logged m @ [''Registered agent: '' @ agent_id]\<rparr>))"

definition start_agent ::
  "('a \<Rightarrow> exn option \<times> 'a) \<Rightarrow> 'a manager \<Rightarrow> string \<Rightarrow> exn option \<times> 'a manager" where
  "start_agent initialize m agent_id =
     (case map_of (agents m) agent_id of
        None \<Rightarrow> (Some (ValueError (''Agent '' @ agent_id @ '' not found'')), m)
      | Some agent \<Rightarrow>
          (case initialize agent of
             (Some e, agent') \<Rightarrow>
               (Some e, m\<lparr>agents := AList.update agent_id agent' (agents m)\<rparr>)
           | (None, agent') \<Rightarrow>
               (None, m\<lparr>agents := AList.update agent_id agent' (agents m),
                         active_agents := insert agent_id (active_agents m),
                         logged := logged m @ [''Started agent: '' @ agent_id]\<rparr>)))"

definition stop_agent ::
  "('a \<Rightarrow> exn option \<times> 'a) \<Rightarrow> 'a manager \<Rightarrow> string \<Rightarrow> exn option \<times> 'a manager" where
  "stop_agent cleanup m agent_id =
     (if agent_id \<notin> active_agents m then (None, m)
      else
        (case map_of (agents m) agent_id of
           None \<Rightarrow> (Some (KeyError agent_id), m)
         | Some agent \<Rightarrow>
             (case cleanup agent of
                (Some e, agent') \<Rightarrow>
                  (Some e, m\<lparr>agents := AList.update agent_id agent' (agents m)\<rparr>)
              | (None, agent') \<Rightarrow>
                  (None, m\<lparr>agents := AList.update agent_id agent' (agents m),
                            active_agents := active_agents m - {agent_id},
                            logged := logged m @ [''Stopped agent: '' @ agent_id]\<rparr>))))"





text \<open>\<^verbatim>\<open>get_states\<close> walks \<^verbatim>\<open>self.agents.items()\<close>: every registered agent.\<close>

fun collect_states ::
  "('a \<Rightarrow> exn + 'b) \<Rightarrow> 'a pydict \<Rightarrow> 'b pydict \<Rightarrow> exn + 'b pydict" where
  "collect_states get_state [] states = Inr states"
| "collect_states get_state ((agent_id, agent) # rest) states =
     (case get_state agent of
        Inl e \<Rightarrow> Inl e
      | Inr s \<Rightarrow> collect_states get_state rest (AList.update agent_id s states))"

definition get_states :: "('a \<Rightarrow> exn + 'b) \<Rightarrow> 'a manager \<Rightarrow> exn + 'b pydict" where
  "get_states get_state m = collect_states get_state (agents m) []"

section \<open>Example inputs\<close>

text \<open>
  A probe agent for the worked examples: it counts the calls of its methods, and two
  flags say whether \<^verbatim>\<open>initialize()\<close> and \<^verbatim>\<open>cleanup()\<close> raise. Its exported state is
  the number of calls of \<^verbatim>\<open>initialize()\<close>.
\<close>

record probe =
  init_calls :: nat
  cleanup_calls :: nat
  init_raises :: bool
  cleanup_raises :: bool

definition probe_initialize :: "probe \<Rightarrow> exn option \<times> probe" where
  "probe_initialize p =
     (if init_raises p then Some (AgentError ''initialize'') else None,
      p\<lparr>init_calls := init_calls p + 1\<rparr>)"

definition probe_cleanup :: "probe \<Rightarrow> exn option \<times> probe" where
  "probe_cleanup p =
     (if cleanup_raises p then Some (AgentError ''cleanup'') else None,
      p\<lparr>cleanup_calls := cleanup_calls p + 1\<rparr>)"

definition probe_get_state :: "probe \<Rightarrow> exn + nat" where
  "probe_get_state p = Inr (init_calls p)"

definition good_probe :: probe where
  "good_probe = \<lparr>init_calls = 0, cleanup_calls = 0, init_raises = False, cleanup_raises = False\<rparr>"

definition bad_probe :: probe where
  "bad_probe = \<lparr>init_calls = 0, cleanup_calls = 0, init_raises = True, cleanup_raises = True\<rparr>"

text \<open>
  Two saves for one identity, one second apart: first \<^verbatim>\<open>{"a": 1}\<close> at 0.5 s, then
  \<^verbatim>\<open>{"a": 1, "b": 2}\<close> at 1.5 s.
\<close>

definition two_saves :: "int store_call list" where
  "two_saves =
     [Save ''agent'' [(''a'', 1)] 500000, Save ''agent'' [(''a'', 1), (''b'', 2)] 1500000]"

definition db_two_saves :: "int db" where
  "db_two_saves = store_run empty_db two_saves"

definition db_one_save :: "int db" where
  "db_one_save = store_run empty_db [Save ''agent'' [(''a'', 1)] 500000]"


text \<open>
  Managers: three registered agents, the second of which raises in both methods; the
  same with all three active; and one good agent, registered, then started once.
\<close>

definition three_registered :: "probe manager" where
  "three_registered =
     \<lparr>agents = [(''first'', good_probe), (''second'', bad_probe), (''third'', good_probe)],
      active_agents = {}, logged = []\<rparr>"

definition three_active :: "probe manager" where
  "three_active = three_registered\<lparr>active_agents := {''first'', ''second'', ''third''}\<rparr>"

definition one_registered :: "probe manager" where
  "one_registered = snd (register_agent new_manager ''solo'' good_probe)"

definition one_started :: "probe manager" where
  "one_started = snd (start_agent probe_initialize one_registered ''solo'')"

section \<open>The state store: versions and the current row\<close>

lemma store_run_append: "store_run d (cs @ cs') = store_run (store_run d cs) cs'"
  by (induction cs arbitrary: d) auto

lemma saved_blobs_append:
  "saved_blobs i (cs @ cs') = saved_blobs i cs @ saved_blobs i cs'"
  by (induction i cs rule: saved_blobs.induct) auto

lemma only_saves_append: "only_saves (cs @ cs') \<longleftrightarrow> only_saves cs \<and> only_saves cs'"
  by (induction cs rule: only_saves.induct) auto

lemma history_of_save:
  "history_of (save_state d j st now) i =
     history_of d i @
       (if j = i then [\<lparr>hist_agent_id = j, hist_state = st, hist_timestamp = now,
                        hist_version = current_version d j + 1\<rparr>] else [])"
  by (auto simp: history_of_def save_state_def current_version_def Let_def split: option.splits)

lemma current_version_save:
  "current_version (save_state d j st now) i =
     (if j = i then current_version d i + 1 else current_version d i)"
  by (auto simp: save_state_def current_version_def Let_def split: option.splits)

lemma load_state_save:
  "load_state (save_state d j st now) i = (if j = i then Some st else load_state d i)"
  by (auto simp: save_state_def load_state_def Let_def)

text \<open>
  Claim C1. After any sequence of saves from the empty store (saves for other
  identities may come in between), the versions that the history holds for an identity
  are exactly 1, 2, ..., n, where n is the number of saves for it; the current row has
  version n; the history holds every blob saved, in order; and \<open>load_state\<close> gives the
  blob of the last save, or nothing when the identity was never saved.
\<close>

theorem save_state_versions_gap_free:
  "only_saves cs \<Longrightarrow>
     versions_of (store_run empty_db cs) i = [1..int (length (saved_blobs i cs))] \<and>
     current_version (store_run empty_db cs) i = int (length (saved_blobs i cs)) \<and>
     map hist_state (history_of (store_run empty_db cs) i) = saved_blobs i cs \<and>
     load_state (store_run empty_db cs) i =
       (if saved_blobs i cs = [] then None else Some (last (saved_blobs i cs)))"
proof (induction cs rule: rev_induct)
  case Nil
  show ?case
    by (simp add: versions_of_def history_of_def current_version_def load_state_def empty_db_def)
next
  case (snoc c cs)
  from snoc.prems have cs: "only_saves cs" and c: "only_saves [c]"
    by (simp_all add: only_saves_append)
  note IH = snoc.IH [OF cs]
  from c obtain j st now where c_def: "c = Save j st now"
    by (cases c) auto
  show ?case
  proof (cases "j = i")
    case True
    have "[1..int (length (saved_blobs i cs)) + 1] =
            [1..int (length (saved_blobs i cs))] @ [int (length (saved_blobs i cs)) + 1]"
      using upto_rec2 [of 1 "int (length (saved_blobs i cs)) + 1"] by simp
    with IH True show ?thesis
      by (simp add: c_def store_run_append saved_blobs_append versions_of_def
          history_of_save current_version_save load_state_save add.commute)
  next
    case False
    with IH show ?thesis
      by (simp add: c_def store_run_append saved_blobs_append versions_of_def
          history_of_save current_version_save load_state_save)
  qed
qed

theorem save_state_versions_gap_free_witness:
  "only_saves two_saves \<and>
   versions_of (store_run empty_db two_saves) ''agent'' = [1, 2] \<and>
   load_state (store_run empty_db two_saves) ''agent'' = Some [(''a'', 1), (''b'', 2)]"
proof -
  have h: "only_saves two_saves"
    by (simp add: two_saves_def)
  have b: "saved_blobs ''agent'' two_saves = [[(''a'', 1)], [(''a'', 1), (''b'', 2)]]"
    by (simp add: two_saves_def)
  have u: "[1..(2::int)] = [1, 2]"
    by (simp add: upto_rec1)
  from save_state_versions_gap_free [OF h, of "''agent''"] h show ?thesis
    by (simp add: b u)
qed

section \<open>The state store: pruning\<close>

lemma sql_datetime_mono: "a \<le> b \<Longrightarrow> sql_datetime a \<le> sql_datetime b"
  unfolding sql_datetime_def by (rule zdiv_mono1) simp_all

lemma sql_datetime_less: "sql_datetime a < sql_datetime b \<Longrightarrow> a < b"
  using sql_datetime_mono [of b a] by linarith

text \<open>
  Claim C9. \<open>clear_history\<close> writes nothing but the history: the current rows are the
  same, so \<open>load_state\<close> of every identity gives what it gave before, with or without
  a date. The rows left are rows that were there, in their order. A row that is gone
  belongs to the identity asked for and, when a date was given, has a time before that
  date.
\<close>

theorem clear_history_frame:
  "agent_states (clear_history d i b) = agent_states d \<and>
   load_state (clear_history d i b) j = load_state d j \<and>
   subseq (state_history (clear_history d i b)) (state_history d) \<and>
   (\<forall>r \<in> set (state_history d). r \<notin> set (state_history (clear_history d i b)) \<longrightarrow>
        hist_agent_id r = i \<and> (\<forall>t. b = Some t \<longrightarrow> hist_timestamp r < t))"
proof (cases b)
  case None
  then show ?thesis
    by (auto simp: clear_history_def load_state_def)
next
  case (Some t)
  then show ?thesis
    by (auto simp: clear_history_def load_state_def dest: sql_datetime_less)
qed

text \<open>
  The comparison is made on whole seconds: of the two rows saved at 0.5 s and 1.5 s, a
  prune before 1.7 s deletes the first and keeps the second.
\<close>

theorem clear_history_frame_witness:
  "load_state (clear_history db_two_saves ''agent'' (Some 1700000)) ''agent'' =
     Some [(''a'', 1), (''b'', 2)] \<and>
   map hist_version (state_history db_two_saves) = [1, 2] \<and>
   map hist_version (state_history (clear_history db_two_saves ''agent'' (Some 1700000))) = [2]"
proof -
  have "load_state db_two_saves ''agent'' = Some [(''a'', 1), (''b'', 2)]"
    by (simp add: db_two_saves_def two_saves_def save_state_def empty_db_def load_state_def)
  moreover have "map hist_version (state_history db_two_saves) = [1, 2]"
    by (simp add: db_two_saves_def two_saves_def save_state_def empty_db_def)
  moreover have
    "map hist_version (state_history (clear_history db_two_saves ''agent'' (Some 1700000))) = [2]"
    by (simp add: db_two_saves_def two_saves_def save_state_def empty_db_def clear_history_def
        sql_datetime_def)
  ultimately show ?thesis
    using clear_history_frame [of db_two_saves "''agent''" "Some 1700000" "''agent''"]
    by simp
qed

section \<open>The state store: comparing two versions\<close>

lemma history_of_clear:
  "history_of (clear_history d j b) i =
     filter (\<lambda>r. \<not> (j = i \<and> (case b of None \<Rightarrow> True
                     | Some t \<Rightarrow> sql_datetime (hist_timestamp r) < sql_datetime t)))
       (history_of d i)"
  by (cases b) (auto simp: history_of_def clear_history_def intro: filter_cong)

lemma current_version_clear:
  "current_version (clear_history d j b) i = current_version d i"
  by (cases b) (simp_all add: current_version_def clear_history_def)

text \<open>
  In every store reached from the empty one by saves and prunes, the versions that the
  history holds for an identity are pairwise different and none is above the version
  of the current row. Each call keeps both facts.
\<close>

lemma step_versions:
  assumes "distinct (versions_of d i)"
    and "\<forall>v \<in> set (versions_of d i). v \<le> current_version d i"
  shows "distinct (versions_of (store_step d c) i) \<and>
         (\<forall>v \<in> set (versions_of (store_step d c) i). v \<le> current_version (store_step d c) i)"
proof (cases c)
  case (Save j st now)
  with assms show ?thesis
    by (auto simp: versions_of_def history_of_save current_version_save)
next
  case (Clear j b)
  with assms show ?thesis
    by (auto simp: versions_of_def history_of_clear current_version_clear distinct_map_filter)
qed

lemma run_versions:
  assumes "distinct (versions_of d i)"
    and "\<forall>v \<in> set (versions_of d i). v \<le> current_version d i"
  shows "distinct (versions_of (store_run d cs) i)"
  using assms
proof (induction cs arbitrary: d)
  case Nil
  then show ?case by simp
next
  case (Cons c cs)
  from step_versions [OF Cons.prems, of c]
  show ?case by (auto intro: Cons.IH)
qed

lemma reachable_versions_distinct: "distinct (versions_of (store_run empty_db cs) i)"
  by (rule run_versions) (simp_all add: versions_of_def history_of_def empty_db_def)

lemma select_states_history:
  "select_states d i v1 v2 =
     map hist_state
       (filter (\<lambda>r. hist_version r = v1 \<or> hist_version r = v2) (history_of d i))"
  by (auto simp: select_states_def history_of_def
      intro: filter_cong arg_cong [where f = "map hist_state"])

lemma distinct_filter_eq_short:
  "distinct (map f xs) \<Longrightarrow> length (filter (\<lambda>x. f x = v) xs) \<le> 1"
  by (induction xs) (auto simp: filter_empty_conv image_iff)

text \<open>
  When one of the two versions is missing, or the two are the same, the query finds at
  most one row.
\<close>

lemma select_states_short:
  assumes "distinct (versions_of d i)"
    and "v1 \<notin> set (versions_of d i) \<or> v2 \<notin> set (versions_of d i) \<or> v1 = v2"
  shows "length (select_states d i v1 v2) \<le> 1"
proof -
  let ?both = "filter (\<lambda>r. hist_version r = v1 \<or> hist_version r = v2) (history_of d i)"
  from assms(2) obtain v where "?both = filter (\<lambda>r. hist_version r = v) (history_of d i)"
  proof (elim disjE)
    assume "v1 \<notin> set (versions_of d i)"
    then have "?both = filter (\<lambda>r. hist_version r = v2) (history_of d i)"
      by (auto simp: versions_of_def intro: filter_cong)
    then show ?thesis by (rule that)
  next
    assume "v2 \<notin> set (versions_of d i)"
    then have "?both = filter (\<lambda>r. hist_version r = v1) (history_of d i)"
      by (auto simp: versions_of_def intro: filter_cong)
    then show ?thesis by (rule that)
  next
    assume "v1 = v2"
    then have "?both = filter (\<lambda>r. hist_version r = v1) (history_of d i)"
      by simp
    then show ?thesis by (rule that)
  qed
  moreover have "length (filter (\<lambda>r. hist_version r = v) (history_of d i)) \<le> 1"
    using assms(1) unfolding versions_of_def by (rule distinct_filter_eq_short)
  ultimately show ?thesis by (simp add: select_states_history)
qed

lemma compare_states_short:
  "length (select_states d i v1 v2) \<le> 1 \<Longrightarrow> compare_states d i v1 v2 = Inr Empty_dict"
  by (cases "select_states d i v1 v2" rule: remdups_adj.cases)
    (simp_all add: compare_states_def compare_states_try_def)

text \<open>The method never raises: every path ends in a \<^verbatim>\<open>return\<close>.\<close>

lemma compare_states_returns: "\<exists>c. compare_states d i v1 v2 = Inr c"
  by (simp add: compare_states_def split: sum.splits)

text \<open>
  The two versions are used only to select rows, and the rows come back in table
  order: exchanging the arguments changes nothing.
\<close>

lemma compare_states_symmetric: "compare_states d i v1 v2 = compare_states d i v2 v1"
proof -
  have "select_states d i v1 v2 = select_states d i v2 v1"
    by (auto simp: select_states_def intro: filter_cong arg_cong [where f = "map hist_state"])
  then show ?thesis by (simp add: compare_states_def compare_states_try_def)
qed

text \<open>In a reachable store, comparing any version with itself gives \<^verbatim>\<open>{}\<close>.\<close>

lemma compare_states_with_itself:
  "compare_states (store_run empty_db cs) i v v = Inr Empty_dict"
  by (intro compare_states_short select_states_short reachable_versions_distinct) simp

text \<open>
  Claim C3, at the input where the code departs from it. After saving \<^verbatim>\<open>{"a": 1}\<close> and
  then \<^verbatim>\<open>{"a": 1, "b": 2}\<close>, the comparison of version 1 with version 2 reports the key
  \<^verbatim>\<open>b\<close> as added. The comparison of version 2 with version 1 reports the same: \<^verbatim>\<open>b\<close>
  added and nothing removed, where the claim has \<^verbatim>\<open>b\<close> removed and nothing added.
\<close>

theorem compare_states_ignores_argument_order:
  "compare_states db_two_saves ''agent'' 1 2 = Inr (Differences [(''b'', 2)] [] []) \<and>
   compare_states db_two_saves ''agent'' 2 1 = Inr (Differences [(''b'', 2)] [] [])"
  by (simp add: db_two_saves_def two_saves_def save_state_def empty_db_def compare_states_def
      compare_states_try_def select_states_def union_keys_def)

text \<open>
  Claim C7, at the input where the code departs from it. After one save, version 1 is
  in the history, and comparing it with itself gives the empty dictionary \<^verbatim>\<open>{}\<close>: the
  query finds one row, not two, and the method returns early. The result has no entry
  \<^verbatim>\<open>added\<close>, \<^verbatim>\<open>removed\<close> or \<^verbatim>\<open>modified\<close>.
\<close>

theorem compare_states_same_version_empty_dict:
  "versions_of db_one_save ''agent'' = [1] \<and>
   compare_states db_one_save ''agent'' 1 1 = Inr Empty_dict"
  by (simp add: db_one_save_def save_state_def empty_db_def compare_states_def
      compare_states_try_def select_states_def versions_of_def history_of_def)

text \<open>
  Claim C6 as stated fails: with version 3 missing from the history, the comparison of
  versions 2 and 3 returns \<^verbatim>\<open>{}\<close> to the caller; nothing is raised.
\<close>

theorem compare_states_missing_version_returns:
  "versions_of db_two_saves ''agent'' = [1, 2] \<and>
   compare_states db_two_saves ''agent'' 2 3 = Inr Empty_dict"
  by (simp add: db_two_saves_def two_saves_def save_state_def empty_db_def compare_states_def
      compare_states_try_def select_states_def versions_of_def history_of_def)

text \<open>
  Claim C6, amended. In a store reached from the empty one by saves and prunes, when at
  least one of the two versions is missing from the history of the identity,
  \<open>compare_states\<close> returns the empty dictionary \<^verbatim>\<open>{}\<close> as a normal result; no error
  reaches the caller.
\<close>

theorem compare_states_missing_version_empty:
  assumes "d = store_run empty_db cs"
    and "v1 \<notin> set (versions_of d i) \<or> v2 \<notin> set (versions_of d i)"
  shows "compare_states d i v1 v2 = Inr Empty_dict"
proof -
  have "distinct (versions_of d i)"
    unfolding assms(1) by (rule reachable_versions_distinct)
  moreover from assms(2)
  have "v1 \<notin> set (versions_of d i) \<or> v2 \<notin> set (versions_of d i) \<or> v1 = v2"
    by blast
  ultimately have "length (select_states d i v1 v2) \<le> 1"
    by (rule select_states_short)
  then show ?thesis by (rule compare_states_short)
qed

theorem compare_states_missing_version_empty_witness:
  "db_one_save = store_run empty_db [Save ''agent'' [(''a'', 1)] 500000] \<and>
   2 \<notin> set (versions_of db_one_save ''agent'') \<and>
   compare_states db_one_save ''agent'' 1 2 = Inr Empty_dict"
proof -
  have v: "versions_of db_one_save ''agent'' = [1]"
    by (simp add: db_one_save_def save_state_def empty_db_def versions_of_def history_of_def)
  then have m: "2 \<notin> set (versions_of db_one_save ''agent'')"
    by simp
  then have "1 \<notin> set (versions_of db_one_save ''agent'') \<or>
             2 \<notin> set (versions_of db_one_save ''agent'')"
    by blast
  from compare_states_missing_version_empty [OF db_one_save_def this] m
  show ?thesis by (simp add: db_one_save_def)
qed

section \<open>The cache\<close>







section \<open>The agent manager: one agent\<close>



lemma stop_agent_returns:
  assumes "i \<in> active_agents m" and "map_of (agents m) i = Some b" and "cleanup b = (None, b')"
  shows "stop_agent cleanup m i =
           (None, m\<lparr>agents := AList.update i b' (agents m),
                     active_agents := active_agents m - {i},
                     logged := logged m @ [''Stopped agent: '' @ i]\<rparr>)"
  using assms by (simp add: stop_agent_def)

lemma stop_agent_raises:
  assumes "i \<in> active_agents m" and "map_of (agents m) i = Some b"
    and "cleanup b = (Some e, b')"
  shows "stop_agent cleanup m i = (Some e, m\<lparr>agents := AList.update i b' (agents m)\<rparr>)"
  using assms by (simp add: stop_agent_def)

lemma update_same_keys:
  "map_of al k = Some v \<Longrightarrow> map fst (AList.update k v' al) = map fst al"
  by (auto simp: update_keys dest: map_of_SomeD intro: rev_image_eqI)




text \<open>
  Claim C10. For an identity that is registered and active: when the agent's
  \<^verbatim>\<open>cleanup()\<close> raises, \<open>stop_agent\<close> raises the same exception, and the active set,
  the identities of the registry, the other agents and the log are as before; the
  identity leaves the active set only when \<^verbatim>\<open>cleanup()\<close> returns.
\<close>

theorem stop_agent_cleanup_raises:
  assumes "agent_id \<in> active_agents m" and "map_of (agents m) agent_id = Some agent"
  shows "(fst (cleanup agent) = Some e \<longrightarrow>
            fst (stop_agent cleanup m agent_id) = Some e \<and>
            active_agents (snd (stop_agent cleanup m agent_id)) = active_agents m \<and>
            map fst (agents (snd (stop_agent cleanup m agent_id))) = map fst (agents m) \<and>
            (\<forall>j. j \<noteq> agent_id \<longrightarrow>
               map_of (agents (snd (stop_agent cleanup m agent_id))) j = map_of (agents m) j) \<and>
            logged (snd (stop_agent cleanup m agent_id)) = logged m) \<and>
         (fst (cleanup agent) = None \<longrightarrow>
            fst (stop_agent cleanup m agent_id) = None \<and>
            active_agents (snd (stop_agent cleanup m agent_id)) = active_agents m - {agent_id})"
proof (cases "cleanup agent")
  case (Pair r agent')
  show ?thesis
  proof (cases r)
    case None
    with Pair assms show ?thesis
      by (auto simp: stop_agent_returns)
  next
    case (Some e')
    with Pair assms show ?thesis
      by (auto simp: stop_agent_raises update_conv' update_same_keys)
  qed
qed

theorem stop_agent_cleanup_raises_witness:
  "''second'' \<in> active_agents three_active \<and>
   map_of (agents three_active) ''second'' = Some bad_probe \<and>
   fst (probe_cleanup bad_probe) = Some (AgentError ''cleanup'') \<and>
   fst (stop_agent probe_cleanup three_active ''second'') = Some (AgentError ''cleanup'') \<and>
   active_agents (snd (stop_agent probe_cleanup three_active ''second'')) =
     {''first'', ''second'', ''third''}"
proof -
  have a: "''second'' \<in> active_agents three_active"
    by (simp add: three_active_def)
  have r: "map_of (agents three_active) ''second'' = Some bad_probe"
    by (simp add: three_active_def three_registered_def)
  have c: "fst (probe_cleanup bad_probe) = Some (AgentError ''cleanup'')"
    by (simp add: probe_cleanup_def bad_probe_def)
  have s: "active_agents three_active = {''first'', ''second'', ''third''}"
    by (simp add: three_active_def)
  from stop_agent_cleanup_raises [OF a r, of probe_cleanup "AgentError ''cleanup''"] a r c
  show ?thesis
    by (simp add: s)
qed

section \<open>The agent manager: all agents\<close>






section \<open>The agent manager: exporting the states\<close>

lemma update_fresh: "k \<notin> fst ` set al \<Longrightarrow> AList.update k v al = al @ [(k, v)]"
  by (induction al) auto

lemma collect_states_all:
  assumes "distinct (map fst rows)" and "fst ` set rows \<inter> fst ` set acc = {}"
    and "\<forall>a \<in> snd ` set rows. get_state a = Inr (f a)"
  shows "collect_states get_state rows acc = Inr (acc @ map (\<lambda>(i, a). (i, f a)) rows)"
  using assms
proof (induction rows arbitrary: acc)
  case Nil
  then show ?case by simp
next
  case (Cons row rows)
  obtain i a where row: "row = (i, a)" by (cases row)
  from Cons.prems(2) have fresh: "i \<notin> fst ` set acc"
    by (auto simp: row)
  have g: "get_state a = Inr (f a)"
    using Cons.prems(3) by (simp add: row)
  have "collect_states get_state rows (acc @ [(i, f a)]) =
          Inr ((acc @ [(i, f a)]) @ map (\<lambda>(i, a). (i, f a)) rows)"
  proof (rule Cons.IH)
    show "distinct (map fst rows)" using Cons.prems(1) by simp
    show "fst ` set rows \<inter> fst ` set (acc @ [(i, f a)]) = {}"
      using Cons.prems(1,2) by (auto simp: row)
    show "\<forall>a \<in> snd ` set rows. get_state a = Inr (f a)"
      using Cons.prems(3) by simp
  qed
  then show ?case
    by (simp add: row g update_fresh [OF fresh])
qed

text \<open>
  Claim C8 as stated fails: \<open>get_states\<close> walks the registry, not the active set. With
  three agents registered and none active, the result has all three identities.
\<close>

theorem get_states_includes_inactive:
  "active_agents three_registered = {} \<and>
   get_states probe_get_state three_registered =
     Inr [(''first'', 0), (''second'', 0), (''third'', 0)]"
  by (simp add: get_states_def three_registered_def probe_get_state_def good_probe_def
      bad_probe_def)

text \<open>
  Claim C8, amended. When the \<^verbatim>\<open>get_state()\<close> of every registered agent returns,
  \<open>get_states\<close> returns a mapping whose keys are exactly the registered identities,
  active or not, in the order of the registry, each mapped to the exported state of
  its agent.
\<close>

theorem get_states_all_registered:
  assumes "distinct (map fst (agents m))"
    and "\<forall>a \<in> snd ` set (agents m). \<exists>s. get_state a = Inr s"
  shows "\<exists>states. get_states get_state m = Inr states \<and>
           map fst states = map fst (agents m) \<and>
           (\<forall>i a. map_of (agents m) i = Some a \<longrightarrow>
              map_option Inr (map_of states i) = Some (get_state a))"
proof -
  define f where "f a = projr (get_state a)" for a
  have f: "\<forall>a \<in> snd ` set (agents m). get_state a = Inr (f a)"
    using assms(2) by (auto simp: f_def)
  define states where "states = map (\<lambda>(i, a). (i, f a)) (agents m)"
  have run: "get_states get_state m = Inr states"
    unfolding get_states_def states_def
    using collect_states_all [OF assms(1) _ f, of "[]"] by simp
  have keys: "map fst states = map fst (agents m)"
    by (simp add: states_def case_prod_unfold comp_def)
  have vals: "map_option Inr (map_of states i) = Some (get_state a)"
    if "map_of (agents m) i = Some a" for i a
  proof -
    from that have "(i, a) \<in> set (agents m)" by (rule map_of_SomeD)
    then have "get_state a = Inr (f a)" using f by force
    moreover have "map_of states i = Some (f a)"
      using that unfolding states_def by (simp add: map_of_map)
    ultimately show ?thesis by simp
  qed
  from run keys vals show ?thesis by blast
qed

theorem get_states_all_registered_witness:
  "distinct (map fst (agents one_started)) \<and>
   active_agents one_started = {''solo''} \<and>
   (\<exists>states. get_states probe_get_state one_started = Inr states \<and>
      map fst states = [''solo''] \<and>
      map_option Inr (map_of states ''solo'') = Some (Inr 1 :: exn + nat))"
proof -
  have ag: "agents one_started = [(''solo'', good_probe\<lparr>init_calls := 1\<rparr>)]"
    by (simp add: one_started_def one_registered_def new_manager_def register_agent_def
        start_agent_def probe_initialize_def good_probe_def)
  have d: "distinct (map fst (agents one_started))"
    by (simp add: ag)
  have g: "\<forall>a \<in> snd ` set (agents one_started). \<exists>s. probe_get_state a = Inr s"
    by (simp add: probe_get_state_def)
  have s: "active_agents one_started = {''solo''}"
    by (simp add: one_started_def one_registered_def new_manager_def register_agent_def
        start_agent_def probe_initialize_def good_probe_def)
  from get_states_all_registered [OF d g] obtain states where
    st: "get_states probe_get_state one_started = Inr states"
      "map fst states = map fst (agents one_started)"
      "\<forall>i a. map_of (agents one_started) i = Some a \<longrightarrow>
         map_option Inr (map_of states i) = Some (probe_get_state a)"
    by blast
  have r: "map_of (agents one_started) ''solo'' = Some (good_probe\<lparr>init_calls := 1\<rparr>)"
    by (simp add: ag)
  have "map_option Inr (map_of states ''solo'') =
      Some (probe_get_state (good_probe\<lparr>init_calls := 1\<rparr>))"
    by (rule st(3) [rule_format, OF r])
  then have v: "map_option Inr (map_of states ''solo'') = Some (Inr 1 :: exn + nat)"
    by (simp add: probe_get_state_def)
  from st(2) have k: "map fst states = [''solo'']"
    by (simp add: ag)
  have "\<exists>states. get_states probe_get_state one_started = Inr states \<and>
      map fst states = [''solo''] \<and>
      map_option Inr (map_of states ''solo'') = Some (Inr 1 :: exn + nat)"
    using st(1) k v by (intro exI [of _ states] conjI)
  with d s show ?thesis
    by (intro conjI)
qed

end
